theory Spec2Isabelle
  imports Main
begin

section \<open>Data model of package httpdshutdown\<close>

text \<open>
  A Go \<^verbatim>\<open>error\<close> is either \<^verbatim>\<open>nil\<close> or a value with a message; every error of
  the package is made by \<^verbatim>\<open>errors.New\<close>, and callers only test it against \<^verbatim>\<open>nil\<close> or
  read its message. \<open>None\<close> is \<^verbatim>\<open>nil\<close>.
\<close>

type_synonym error = "string option"

definition errors_New :: "string \<Rightarrow> error" where
  "errors_New msg = Some msg"

text \<open>A \<^verbatim>\<open>panic\<close> is a value of its own: it is not an error a caller receives.\<close>

datatype fault = Panic string

text \<open>
  \<^verbatim>\<open>type ShutdownHook func() error\<close>: a closure. It reads and writes the state of the
  program, of an arbitrary type \<open>'s\<close>, and returns its error.
\<close>

type_synonym 's ShutdownHook = "'s \<Rightarrow> error \<times> 's"

text \<open>
  \<^verbatim>\<open>type Watcher struct\<close>. The field \<open>connsWG\<close> holds the counter of the
  \<^verbatim>\<open>sync.WaitGroup\<close> the struct points to. Go's \<^verbatim>\<open>int\<close> is read as an integer; the
  one computation on \<open>timeoutMS\<close> that can overflow, the duration of the timer, is
  written out with its wrap-around below.
\<close>

record 's Watcher =
  connsWG :: int
  shutdownHooks :: "'s ShutdownHook list"
  timeoutMS :: int

text \<open>
  \<^verbatim>\<open>time.Duration(w.timeoutMS) * time.Millisecond\<close>: the duration OnStop hands to
  \<^verbatim>\<open>time.After\<close>, in nanoseconds. A \<^verbatim>\<open>Duration\<close> is a signed 64-bit integer and the
  product wraps around.
\<close>

definition int64 :: "int \<Rightarrow> int" where
  "int64 x = (x + 2 ^ 63) mod 2 ^ 64 - 2 ^ 63"

definition grace_period :: "'s Watcher \<Rightarrow> int" where
  "grace_period w = int64 (int64 (timeoutMS w) * 1000000)"

subsection \<open>The library's WaitGroup\<close>

text \<open>
  \<^verbatim>\<open>sync.WaitGroup\<close> belongs to Go's standard library. Its documented contract:
  \<^verbatim>\<open>Add\<close> adds delta, which may be negative, to the counter, and panics if the counter
  goes negative; \<^verbatim>\<open>Done\<close> decrements the counter by one. The library keeps the counter
  in 32 bits and reads it as a signed integer after the addition: a sum beyond
  2147483647 wraps to a negative value, and \<^verbatim>\<open>Add\<close> panics on it as well.
\<close>

definition int32 :: "int \<Rightarrow> int" where
  "int32 x = (x + 2 ^ 31) mod 2 ^ 32 - 2 ^ 31"

definition WaitGroup_Add :: "int \<Rightarrow> int \<Rightarrow> fault + int" where
  "WaitGroup_Add counter delta =
     (let v = int32 (counter + delta)
      in if v < 0 then Inl (Panic ''sync: negative WaitGroup counter'') else Inr v)"

definition WaitGroup_Done :: "int \<Rightarrow> fault + int" where
  "WaitGroup_Done counter = WaitGroup_Add counter (- 1)"

subsection \<open>The connection states of net/http\<close>

text \<open>\<^verbatim>\<open>type ConnState int\<close>, with its constants numbered by \<^verbatim>\<open>iota\<close>.\<close>

type_synonym ConnState = int

definition StateNew :: ConnState where "StateNew = 0"
definition StateActive :: ConnState where "StateActive = 1"
definition StateIdle :: ConnState where "StateIdle = 2"
definition StateHijacked :: ConnState where "StateHijacked = 3"
definition StateClosed :: ConnState where "StateClosed = 4"

section \<open>NewWatcher\<close>

text \<open>
  Go returns the pair \<^verbatim>\<open>(*Watcher, error)\<close>; \<open>None\<close> in the first component is the
  \<^verbatim>\<open>nil\<close> pointer. The hooks are copied into a fresh slice of the same length.
\<close>

definition NewWatcher :: "int \<Rightarrow> 's ShutdownHook list \<Rightarrow> 's Watcher option \<times> error" where
  "NewWatcher tmo hooks =
     (if tmo < 0 then (None, errors_New ''timeout must be a positive number'')
      else (Some \<lparr>connsWG = 0, shutdownHooks = hooks, timeoutMS = tmo\<rparr>, None))"

section \<open>RecordConnState\<close>

text \<open>
  The method has no result and updates the counter in place; the model returns the
  Watcher with the new counter, or the panic. The receiver is a pointer: \<open>None\<close> is
  \<^verbatim>\<open>nil\<close>.
\<close>

definition RecordConnState :: "'s Watcher option \<Rightarrow> ConnState \<Rightarrow> fault + 's Watcher" where
  "RecordConnState w newState =
     (case w of
        None \<Rightarrow> Inl (Panic ''RecordConnState: receiver is nil'')
      | Some w' \<Rightarrow>
          if newState = StateNew then
            (case WaitGroup_Add (connsWG w') 1 of
               Inl p \<Rightarrow> Inl p
             | Inr c \<Rightarrow> Inr (w'\<lparr>connsWG := c\<rparr>))
          else if newState = StateClosed \<or> newState = StateHijacked then
            (case WaitGroup_Done (connsWG w') of
               Inl p \<Rightarrow> Inl p
             | Inr c \<Rightarrow> Inr (w'\<lparr>connsWG := c\<rparr>))
          else Inr w')"

text \<open>
  The calls a server makes for a sequence of connection events, one after the other.
  The first panic ends the run.
\<close>

fun RecordConnState_seq :: "'s Watcher \<Rightarrow> ConnState list \<Rightarrow> fault + 's Watcher" where
  "RecordConnState_seq w [] = Inr w"
| "RecordConnState_seq w (e # es) =
     (case RecordConnState (Some w) e of
        Inl p \<Rightarrow> Inl p
      | Inr w' \<Rightarrow> RecordConnState_seq w' es)"

text \<open>
  The words of the specification about event sequences: the number of opened events,
  the number of closed or abandoned (hijacked) events, and well-formedness: at every
  point of the sequence no more connections have been closed than opened.
\<close>

definition opened :: "ConnState list \<Rightarrow> int" where
  "opened evs = int (length (filter (\<lambda>e. e = StateNew) evs))"

definition closed :: "ConnState list \<Rightarrow> int" where
  "closed evs = int (length (filter (\<lambda>e. e = StateClosed \<or> e = StateHijacked) evs))"

definition well_formed :: "ConnState list \<Rightarrow> bool" where
  "well_formed evs = list_all (\<lambda>n. closed (take n evs) \<le> opened (take n evs)) [0..<Suc (length evs)]"

text \<open>
  A sequence of events stays within the counter when at no point more than 2147483647
  connections are open, the largest value the WaitGroup's counter holds.
\<close>

definition within_counter :: "ConnState list \<Rightarrow> bool" where
  "within_counter evs =
     list_all (\<lambda>n. opened (take n evs) - closed (take n evs) \<le> 2147483647) [0..<Suc (length evs)]"

section \<open>RunHooks\<close>

text \<open>\<^verbatim>\<open>strings.Join\<close> of the standard library: the elements with the separator between them.\<close>

fun Join :: "string list \<Rightarrow> string \<Rightarrow> string" where
  "Join [] sep = []"
| "Join [x] sep = x"
| "Join (x # y # ys) sep = x @ sep @ Join (y # ys) sep"

text \<open>
  The loop \<^verbatim>\<open>for _, f := range w.shutdownHooks\<close>: each hook is called on the state the
  previous one left, and a non-nil error appends one string to \<open>errStrs\<close>.
\<close>

fun RunHooks_loop :: "'s ShutdownHook list \<Rightarrow> string list \<Rightarrow> 's \<Rightarrow> string list \<times> 's" where
  "RunHooks_loop [] errStrs s = (errStrs, s)"
| "RunHooks_loop (f # fs) errStrs s =
     (case f s of
        (None, s') \<Rightarrow> RunHooks_loop fs errStrs s'
      | (Some err, s') \<Rightarrow> RunHooks_loop fs (errStrs @ [''shutdown hook err: '' @ err]) s')"

definition RunHooks :: "'s Watcher option \<Rightarrow> 's \<Rightarrow> error \<times> 's" where
  "RunHooks w s =
     (case w of
        None \<Rightarrow> (errors_New ''RunHooks: receiver is nil'', s)
      | Some w' \<Rightarrow>
          (case RunHooks_loop (shutdownHooks w') [] s of
             (errStrs, s') \<Rightarrow>
               if length errStrs \<noteq> 0 then (errors_New (Join errStrs [CHR 0x0A]), s')
               else (None, s')))"

section \<open>OnStop\<close>

text \<open>
  The \<^verbatim>\<open>select\<close> of OnStop has two cases: the receive from \<open>waitChan\<close>, ready once
  \<^verbatim>\<open>connsWG.Wait()\<close> has returned in the goroutine OnStop starts, and the receive from
  \<^verbatim>\<open>time.After\<close>, ready once the duration given to the timer is over. OnStop blocks
  there while the rest of the program runs. OnStop hands the run-time system the
  WaitGroup to wait for and the duration of the timer; which case the select then takes,
  and the state of the program at that moment, are a function of the counter of the
  WaitGroup at the call, of the timer's duration and of the state at the call. The
  function is a parameter here; the run-time system itself is modelled further down.
\<close>

datatype select_case = WaitChan | TimeAfter

type_synonym 's select_wait = "int \<Rightarrow> int \<Rightarrow> 's \<Rightarrow> select_case \<times> 's"

definition OnStop :: "'s Watcher option \<Rightarrow> 's select_wait \<Rightarrow> 's \<Rightarrow> error \<times> 's" where
  "OnStop w sel s =
     (case w of
        None \<Rightarrow> (errors_New ''OnStop: receiver is nil'', s)
      | Some w' \<Rightarrow>
          (case sel (connsWG w') (grace_period w') s of
             (WaitChan, s1) \<Rightarrow>
               (case RunHooks (Some w') s1 of (_, s2) \<Rightarrow> (None, s2))
           | (TimeAfter, s1) \<Rightarrow>
               (case RunHooks (Some w') s1 of
                  (_, s2) \<Rightarrow> (errors_New ''OnStop: shutdown timed out'', s2))))"

subsection \<open>The run-time system at the select\<close>

text \<open>
  What Go's run-time system and libraries do at the select of OnStop, from their
  documentation. Time is counted in nanoseconds from the call of OnStop. While OnStop is
  blocked, other goroutines record connection states on the same Watcher: a timeline
  lists these calls of RecordConnState, each with its time, in the order they happen.
\<close>

type_synonym timeline = "(int \<times> ConnState) list"








text \<open>The time by which the first \<open>k\<close> calls of a timeline have been made.\<close>

definition time_of :: "int \<Rightarrow> timeline \<Rightarrow> nat \<Rightarrow> int" where
  "time_of now evs k = (if k = 0 then now else fst (evs ! (k - 1)))"

section \<open>SigHandle\<close>

text \<open>\<^verbatim>\<open>syscall.Signal\<close> is an integer; the numbers are those of Linux.\<close>

type_synonym Signal = int

definition SIGHUP :: Signal where "SIGHUP = 1"
definition SIGINT :: Signal where "SIGINT = 2"
definition SIGQUIT :: Signal where "SIGQUIT = 3"
definition SIGTERM :: Signal where "SIGTERM = 15"

text \<open>
  The loop \<^verbatim>\<open>for sig := range sigs\<close> over the signals the channel delivers until it is
  closed. \<open>exitcode\<close> is the list of the values sent on the exit-code channel so far, the
  oldest first; every send is taken to go through.
\<close>

fun SigHandle_loop ::
  "'s Watcher \<Rightarrow> 's select_wait \<Rightarrow> Signal list \<Rightarrow> int list \<times> 's \<Rightarrow> fault + int list \<times> 's" where
  "SigHandle_loop w sel [] (exitcode, s) = Inr (exitcode, s)"
| "SigHandle_loop w sel (sig # sigs) (exitcode, s) =
     (if sig = SIGTERM \<or> sig = SIGQUIT \<or> sig = SIGHUP then
        (case OnStop (Some w) sel s of
           (stopErr, s') \<Rightarrow>
             (let exitcode1 = (if stopErr \<noteq> None then exitcode @ [1] else exitcode);
                  exitcode2 = exitcode1 @ [0]
              in SigHandle_loop w sel sigs (exitcode2, s')))
      else if sig = SIGINT then Inl (Panic ''panic exit'')
      else SigHandle_loop w sel sigs (exitcode, s))"

definition SigHandle ::
  "'s Watcher option \<Rightarrow> 's select_wait \<Rightarrow> Signal list \<Rightarrow> int list \<times> 's \<Rightarrow> fault + int list \<times> 's" where
  "SigHandle w sel sigs st =
     (case w of
        None \<Rightarrow> Inl (Panic ''SigHandler: Watcher is nil'')
      | Some w' \<Rightarrow> SigHandle_loop w' sel sigs st)"

section \<open>Invocations of OnStop in flight\<close>

text \<open>
  OnStop in steps, for invocations that overlap in time. An invocation is at its
  select; or past it, inside RunHooks, holding the error it is going to return and the
  hooks it has still to call; or it has returned. A step at the select takes the case
  the environment gives. A step inside RunHooks calls the next hook, from its start to
  its end, on the state of the program as it is then; when no hook is left, the
  invocation returns. The errors of the hooks are dropped, as OnStop drops them.
\<close>

datatype 's OnStop_at = AtSelect | InRunHooks error "'s ShutdownHook list" | Returned error

fun OnStop_step :: "'s Watcher \<Rightarrow> 's select_wait \<Rightarrow> 's OnStop_at \<times> 's \<Rightarrow> 's OnStop_at \<times> 's" where
  "OnStop_step w sel (AtSelect, s) =
     (case sel (connsWG w) (grace_period w) s of
        (WaitChan, s1) \<Rightarrow> (InRunHooks None (shutdownHooks w), s1)
      | (TimeAfter, s1) \<Rightarrow>
          (InRunHooks (errors_New ''OnStop: shutdown timed out'') (shutdownHooks w), s1))"
| "OnStop_step w sel (InRunHooks r (f # fs), s) = (InRunHooks r fs, snd (f s))"
| "OnStop_step w sel (InRunHooks r [], s) = (Returned r, s)"
| "OnStop_step w sel (Returned r, s) = (Returned r, s)"

text \<open>
  Two invocations on the same Watcher, from two goroutines. The scheduler decides
  which of them takes the next step; the state of the program is shared.
\<close>

datatype invocation = First | Second

fun OnStop_two ::
  "'s Watcher \<Rightarrow> 's select_wait \<Rightarrow> invocation list \<Rightarrow>
   's OnStop_at \<times> 's OnStop_at \<times> 's \<Rightarrow> 's OnStop_at \<times> 's OnStop_at \<times> 's" where
  "OnStop_two w sel [] c = c"
| "OnStop_two w sel (First # sched) (p, q, s) =
     (case OnStop_step w sel (p, s) of (p', s') \<Rightarrow> OnStop_two w sel sched (p', q, s'))"
| "OnStop_two w sel (Second # sched) (p, q, s) =
     (case OnStop_step w sel (q, s) of (q', s') \<Rightarrow> OnStop_two w sel sched (p, q', s'))"

section \<open>Words of the specification about hooks\<close>

text \<open>
  Calling every hook of a list once, in the order of the list, each on the state its
  predecessor left: the errors returned, in that order, and the state at the end.
\<close>

fun call_each :: "'s ShutdownHook list \<Rightarrow> 's \<Rightarrow> error list \<times> 's" where
  "call_each [] s = ([], s)"
| "call_each (f # fs) s =
     (case f s of (e, s') \<Rightarrow> (case call_each fs s' of (es, s'') \<Rightarrow> (e # es, s'')))"

text \<open>The failure texts among the errors returned: the messages of those that are not nil.\<close>

fun failure_texts :: "error list \<Rightarrow> string list" where
  "failure_texts [] = []"
| "failure_texts (None # es) = failure_texts es"
| "failure_texts (Some msg # es) = msg # failure_texts es"


subsection \<open>Observing a run\<close>

text \<open>
  To state when and how often hooks are called, a run is observed through a trace kept
  beside the state of the program: a hook that is called appends its position in the
  list of registered hooks, and the select of OnStop appends the case it took. The
  functions under observation are the ones defined above, unchanged: only the hooks and
  the select they are given write the trace.
\<close>

datatype event = Resolved select_case | HookCalled nat

definition traced_hook :: "nat \<Rightarrow> 's ShutdownHook \<Rightarrow> ('s \<times> event list) ShutdownHook" where
  "traced_hook i f = (\<lambda>(s, tr). case f s of (e, s') \<Rightarrow> (e, (s', tr @ [HookCalled i])))"

fun traced_hooks :: "nat \<Rightarrow> 's ShutdownHook list \<Rightarrow> ('s \<times> event list) ShutdownHook list" where
  "traced_hooks i [] = []"
| "traced_hooks i (f # fs) = traced_hook i f # traced_hooks (Suc i) fs"

definition traced :: "'s Watcher \<Rightarrow> ('s \<times> event list) Watcher" where
  "traced w =
     \<lparr>connsWG = connsWG w, shutdownHooks = traced_hooks 0 (shutdownHooks w),
      timeoutMS = timeoutMS w\<rparr>"

definition traced_select :: "'s select_wait \<Rightarrow> ('s \<times> event list) select_wait" where
  "traced_select sel =
     (\<lambda>counter d (s, tr). case sel counter d s of (c, s') \<Rightarrow> (c, (s', tr @ [Resolved c])))"

subsection \<open>Progress of an invocation in flight\<close>

text \<open>
  For an invocation on a Watcher with \<open>n\<close> registered hooks: the number of hooks it has
  called, and the number of steps it has taken, both read off the place it is at.
\<close>

fun hooks_called :: "nat \<Rightarrow> 's OnStop_at \<Rightarrow> nat" where
  "hooks_called n AtSelect = 0"
| "hooks_called n (InRunHooks r fs) = n - length fs"
| "hooks_called n (Returned r) = n"

fun steps_taken :: "nat \<Rightarrow> 's OnStop_at \<Rightarrow> nat" where
  "steps_taken n AtSelect = 0"
| "steps_taken n (InRunHooks r fs) = Suc (n - length fs)"
| "steps_taken n (Returned r) = n + 2"

text \<open>
  An observed invocation inside RunHooks holds a tail of the registered hooks, each
  writing its own position to the trace.
\<close>

fun in_flight_ok :: "'s ShutdownHook list \<Rightarrow> ('s \<times> event list) OnStop_at \<Rightarrow> bool" where
  "in_flight_ok hs (InRunHooks r fs) =
     (length fs \<le> length hs
      \<and> fs = traced_hooks (length hs - length fs) (drop (length hs - length fs) hs))"
| "in_flight_ok hs AtSelect = True"
| "in_flight_ok hs (Returned r) = True"

section \<open>Basic facts\<close>

lemmas ConnState_defs =
  StateNew_def StateActive_def StateIdle_def StateHijacked_def StateClosed_def

lemmas Signal_defs = SIGHUP_def SIGINT_def SIGQUIT_def SIGTERM_def



lemma grace_period_wraps:
  "grace_period \<lparr>connsWG = 0, shutdownHooks = [], timeoutMS = 9223372036855\<rparr> = - 9223372036854551616"
  by (simp add: grace_period_def int64_def)

lemma grace_period_traced [simp]: "grace_period (traced w) = grace_period w"
  by (simp add: grace_period_def traced_def)

lemma connsWG_traced [simp]: "connsWG (traced w) = connsWG w"
  by (simp add: traced_def)

lemma shutdownHooks_traced [simp]: "shutdownHooks (traced w) = traced_hooks 0 (shutdownHooks w)"
  by (simp add: traced_def)

subsection \<open>Sequences of connection events\<close>

lemma ConnState_distinct [simp]:
  "StateNew \<noteq> StateClosed" "StateNew \<noteq> StateHijacked"
  "StateClosed \<noteq> StateNew" "StateHijacked \<noteq> StateNew"
  "StateActive \<noteq> StateNew" "StateActive \<noteq> StateClosed" "StateActive \<noteq> StateHijacked"
  "StateIdle \<noteq> StateNew" "StateIdle \<noteq> StateClosed" "StateIdle \<noteq> StateHijacked"
  by (simp_all add: ConnState_defs)

lemma opened_Nil [simp]: "opened [] = 0"
  by (simp add: opened_def)

lemma closed_Nil [simp]: "closed [] = 0"
  by (simp add: closed_def)

lemma opened_Cons [simp]: "opened (e # es) = (if e = StateNew then 1 else 0) + opened es"
  by (simp add: opened_def)

lemma closed_Cons [simp]:
  "closed (e # es) = (if e = StateClosed \<or> e = StateHijacked then 1 else 0) + closed es"
  by (simp add: closed_def)

lemma well_formed_iff:
  "well_formed evs \<longleftrightarrow> (\<forall>n\<le>length evs. closed (take n evs) \<le> opened (take n evs))"
  by (auto simp: well_formed_def list_all_iff less_Suc_eq_le)

lemma within_counter_iff:
  "within_counter evs \<longleftrightarrow>
     (\<forall>n\<le>length evs. opened (take n evs) - closed (take n evs) \<le> 2147483647)"
  by (auto simp: within_counter_def list_all_iff less_Suc_eq_le)

lemma int32_id: "- (2 ^ 31) \<le> x \<Longrightarrow> x < 2 ^ 31 \<Longrightarrow> int32 x = x"
  by (simp add: int32_def)

lemma RecordConnState_New:
  "0 \<le> connsWG w \<Longrightarrow> connsWG w < 2147483647 \<Longrightarrow>
   RecordConnState (Some w) StateNew = Inr (w\<lparr>connsWG := connsWG w + 1\<rparr>)"
  by (simp add: RecordConnState_def WaitGroup_Add_def int32_id)

lemma RecordConnState_New_wraps:
  "connsWG w = 2147483647 \<Longrightarrow>
   RecordConnState (Some w) StateNew = Inl (Panic ''sync: negative WaitGroup counter'')"
  by (simp add: RecordConnState_def WaitGroup_Add_def int32_def)

lemma RecordConnState_Closed:
  "st = StateClosed \<or> st = StateHijacked \<Longrightarrow> 0 \<le> connsWG w \<Longrightarrow> connsWG w \<le> 2147483647 \<Longrightarrow>
   RecordConnState (Some w) st =
     (if connsWG w < 1 then Inl (Panic ''sync: negative WaitGroup counter'')
      else Inr (w\<lparr>connsWG := connsWG w - 1\<rparr>))"
  by (auto simp: RecordConnState_def WaitGroup_Add_def WaitGroup_Done_def ConnState_defs int32_id)

lemma RecordConnState_other:
  "st \<noteq> StateNew \<Longrightarrow> st \<noteq> StateClosed \<Longrightarrow> st \<noteq> StateHijacked \<Longrightarrow>
   RecordConnState (Some w) st = Inr w"
  by (simp add: RecordConnState_def)

lemma seq_ok:
  "0 \<le> connsWG w \<Longrightarrow>
   \<forall>n\<le>length evs. closed (take n evs) \<le> connsWG w + opened (take n evs)
      \<and> connsWG w + opened (take n evs) - closed (take n evs) \<le> 2147483647 \<Longrightarrow>
   RecordConnState_seq w evs = Inr (w\<lparr>connsWG := connsWG w + opened evs - closed evs\<rparr>)"
proof (induction evs arbitrary: w)
  case Nil
  then show ?case by simp
next
  case (Cons e es)
  have step: "\<forall>n\<le>length es.
      (if e = StateClosed \<or> e = StateHijacked then 1 else 0) + closed (take n es)
        \<le> connsWG w + ((if e = StateNew then 1 else 0) + opened (take n es))
      \<and> connsWG w + ((if e = StateNew then 1 else 0) + opened (take n es))
          - ((if e = StateClosed \<or> e = StateHijacked then 1 else 0) + closed (take n es))
        \<le> 2147483647"
  proof (intro allI impI)
    fix n
    assume "n \<le> length es"
    then have "Suc n \<le> length (e # es)" by simp
    with Cons.prems(2) have
      "closed (take (Suc n) (e # es)) \<le> connsWG w + opened (take (Suc n) (e # es))
       \<and> connsWG w + opened (take (Suc n) (e # es)) - closed (take (Suc n) (e # es)) \<le> 2147483647"
      by blast
    then show "(if e = StateClosed \<or> e = StateHijacked then 1 else 0) + closed (take n es)
        \<le> connsWG w + ((if e = StateNew then 1 else 0) + opened (take n es))
      \<and> connsWG w + ((if e = StateNew then 1 else 0) + opened (take n es))
          - ((if e = StateClosed \<or> e = StateHijacked then 1 else 0) + closed (take n es))
        \<le> 2147483647"
      by simp
  qed
  have first: "(if e = StateClosed \<or> e = StateHijacked then 1 else 0)
      \<le> connsWG w + (if e = StateNew then (1::int) else 0)
    \<and> connsWG w + (if e = StateNew then (1::int) else 0)
        - (if e = StateClosed \<or> e = StateHijacked then 1 else 0) \<le> 2147483647"
    using step by (auto dest: spec [of _ 0])
  have top: "connsWG w \<le> 2147483647"
    using Cons.prems(2) by (auto dest: spec [of _ 0])
  consider (new) "e = StateNew" | (cl) "e = StateClosed \<or> e = StateHijacked"
    | (other) "e \<noteq> StateNew" "e \<noteq> StateClosed" "e \<noteq> StateHijacked"
    by blast
  then show ?case
  proof cases
    case new
    let ?w = "w\<lparr>connsWG := connsWG w + 1\<rparr>"
    have below: "connsWG w < 2147483647" using first new by auto
    have "RecordConnState_seq ?w es = Inr (?w\<lparr>connsWG := connsWG ?w + opened es - closed es\<rparr>)"
    proof (rule Cons.IH)
      show "0 \<le> connsWG ?w" using Cons.prems(1) by simp
      show "\<forall>n\<le>length es. closed (take n es) \<le> connsWG ?w + opened (take n es)
          \<and> connsWG ?w + opened (take n es) - closed (take n es) \<le> 2147483647"
        using step new by fastforce
    qed
    then show ?thesis
      using new Cons.prems(1) below by (simp add: RecordConnState_New add.assoc)
  next
    case cl
    let ?w = "w\<lparr>connsWG := connsWG w - 1\<rparr>"
    have pos: "1 \<le> connsWG w" using first cl by auto
    have "RecordConnState_seq ?w es = Inr (?w\<lparr>connsWG := connsWG ?w + opened es - closed es\<rparr>)"
    proof (rule Cons.IH)
      show "0 \<le> connsWG ?w" using pos by simp
      show "\<forall>n\<le>length es. closed (take n es) \<le> connsWG ?w + opened (take n es)
          \<and> connsWG ?w + opened (take n es) - closed (take n es) \<le> 2147483647"
        using step cl by fastforce
    qed
    then show ?thesis
      using cl pos top by (auto simp: RecordConnState_Closed)
  next
    case other
    have "RecordConnState_seq w es = Inr (w\<lparr>connsWG := connsWG w + opened es - closed es\<rparr>)"
    proof (rule Cons.IH)
      show "0 \<le> connsWG w" by (rule Cons.prems(1))
      show "\<forall>n\<le>length es. closed (take n es) \<le> connsWG w + opened (take n es)
          \<and> connsWG w + opened (take n es) - closed (take n es) \<le> 2147483647"
        using step other by fastforce
    qed
    then show ?thesis
      using other by (simp add: RecordConnState_other)
  qed
qed

lemma seq_bad:
  "0 \<le> connsWG w \<Longrightarrow> connsWG w \<le> 2147483647 \<Longrightarrow>
   \<not> (\<forall>n\<le>length evs. closed (take n evs) \<le> connsWG w + opened (take n evs)) \<Longrightarrow>
   RecordConnState_seq w evs = Inl (Panic ''sync: negative WaitGroup counter'')"
proof (induction evs arbitrary: w)
  case Nil
  then show ?case by simp
next
  case (Cons e es)
  from Cons.prems(3) obtain n where n: "n \<le> length (e # es)"
    "\<not> closed (take n (e # es)) \<le> connsWG w + opened (take n (e # es))"
    by blast
  with Cons.prems(1) obtain m where m: "n = Suc m" "m \<le> length es"
    by (cases n) auto
  consider (new) "e = StateNew" | (cl) "e = StateClosed \<or> e = StateHijacked"
    | (other) "e \<noteq> StateNew" "e \<noteq> StateClosed" "e \<noteq> StateHijacked"
    by blast
  then show ?case
  proof cases
    case new
    show ?thesis
    proof (cases "connsWG w = 2147483647")
      case True
      then show ?thesis using new by (simp add: RecordConnState_New_wraps)
    next
      case False
      let ?w = "w\<lparr>connsWG := connsWG w + 1\<rparr>"
      from False Cons.prems(2) have below: "connsWG w < 2147483647" by simp
      have "RecordConnState_seq ?w es = Inl (Panic ''sync: negative WaitGroup counter'')"
      proof (rule Cons.IH)
        show "0 \<le> connsWG ?w" using Cons.prems(1) by simp
        show "connsWG ?w \<le> 2147483647" using below by simp
        show "\<not> (\<forall>n\<le>length es. closed (take n es) \<le> connsWG ?w + opened (take n es))"
          using n m new by auto
      qed
      then show ?thesis
        using new Cons.prems(1) below by (simp add: RecordConnState_New)
    qed
  next
    case cl
    show ?thesis
    proof (cases "connsWG w < 1")
      case True
      then show ?thesis using cl Cons.prems(1,2) by (auto simp: RecordConnState_Closed)
    next
      case False
      let ?w = "w\<lparr>connsWG := connsWG w - 1\<rparr>"
      have "RecordConnState_seq ?w es = Inl (Panic ''sync: negative WaitGroup counter'')"
      proof (rule Cons.IH)
        show "0 \<le> connsWG ?w" using False by simp
        show "connsWG ?w \<le> 2147483647" using Cons.prems(2) by simp
        show "\<not> (\<forall>n\<le>length es. closed (take n es) \<le> connsWG ?w + opened (take n es))"
          using n m cl by auto
      qed
      then show ?thesis
        using cl False Cons.prems(1,2) by (auto simp: RecordConnState_Closed)
    qed
  next
    case other
    have "RecordConnState_seq w es = Inl (Panic ''sync: negative WaitGroup counter'')"
    proof (rule Cons.IH)
      show "0 \<le> connsWG w" by (rule Cons.prems(1))
      show "connsWG w \<le> 2147483647" by (rule Cons.prems(2))
      show "\<not> (\<forall>n\<le>length es. closed (take n es) \<le> connsWG w + opened (take n es))"
        using n m other by auto
    qed
    then show ?thesis
      using other by (simp add: RecordConnState_other)
  qed
qed

lemma seq_New:
  "0 \<le> connsWG w \<Longrightarrow> connsWG w \<le> 2147483647 \<Longrightarrow>
   RecordConnState_seq w (replicate n StateNew) =
     (if connsWG w + int n \<le> 2147483647 then Inr (w\<lparr>connsWG := connsWG w + int n\<rparr>)
      else Inl (Panic ''sync: negative WaitGroup counter''))"
proof (induction n arbitrary: w)
  case 0
  then show ?case by simp
next
  case (Suc n)
  show ?case
  proof (cases "connsWG w = 2147483647")
    case True
    then show ?thesis by (simp add: RecordConnState_New_wraps)
  next
    case False
    with Suc.prems have below: "connsWG w < 2147483647" by simp
    let ?w = "w\<lparr>connsWG := connsWG w + 1\<rparr>"
    have "0 \<le> connsWG ?w" and "connsWG ?w \<le> 2147483647"
      using Suc.prems below by simp_all
    from Suc.IH [OF this] Suc.prems below show ?thesis
      by (simp add: RecordConnState_New add.assoc)
  qed
qed

lemma well_formed_New: "well_formed (replicate n StateNew)"
  by (simp add: well_formed_iff opened_def closed_def)

lemma well_formed_take: "well_formed evs \<Longrightarrow> well_formed (take n evs)"
  unfolding well_formed_iff
  by (metis length_take min.cobounded2 order_trans take_take min.commute)

subsection \<open>Running the hooks\<close>

lemma RunHooks_loop_call_each:
  "RunHooks_loop hs acc s =
     (acc @ map (\<lambda>e. ''shutdown hook err: '' @ e) (failure_texts (fst (call_each hs s))),
      snd (call_each hs s))"
proof (induction hs arbitrary: acc s)
  case Nil
  then show ?case by simp
next
  case (Cons f fs)
  obtain e s' where f: "f s = (e, s')" by (cases "f s")
  obtain es s'' where r: "call_each fs s' = (es, s'')" by (cases "call_each fs s'")
  show ?case
    using f r Cons.IH [of _ s'] by (cases e) simp_all
qed

lemma RunHooks_call_each:
  "RunHooks (Some w) s =
     (let texts = failure_texts (fst (call_each (shutdownHooks w) s))
      in if texts = [] then None
         else Some (Join (map (\<lambda>e. ''shutdown hook err: '' @ e) texts) [CHR 0x0A]),
      snd (call_each (shutdownHooks w) s))"
  by (simp add: RunHooks_def RunHooks_loop_call_each errors_New_def Let_def del: append_Cons)







lemma OnStop_error:
  "fst (OnStop (Some w) sel s)
     = (case fst (sel (connsWG w) (grace_period w) s) of WaitChan \<Rightarrow> None | TimeAfter \<Rightarrow> Some ''OnStop: shutdown timed out'')"
proof -
  obtain c s1 where sel: "sel (connsWG w) (grace_period w) s = (c, s1)" by (cases "sel (connsWG w) (grace_period w) s")
  then show ?thesis
    by (cases c) (simp_all add: OnStop_def errors_New_def split: prod.splits)
qed

lemma OnStop_result:
  "OnStop (Some w) sel s =
     (case fst (sel (connsWG w) (grace_period w) s) of
        WaitChan \<Rightarrow> None | TimeAfter \<Rightarrow> Some ''OnStop: shutdown timed out'',
      snd (call_each (shutdownHooks w) (snd (sel (connsWG w) (grace_period w) s))))"
proof -
  obtain c s1 where sel: "sel (connsWG w) (grace_period w) s = (c, s1)"
    by (cases "sel (connsWG w) (grace_period w) s")
  then show ?thesis
    by (cases c) (simp_all add: OnStop_def RunHooks_call_each errors_New_def)
qed

subsection \<open>The race at the select\<close>



lemma time_of_0 [simp]: "time_of now evs 0 = now"
  by (simp add: time_of_def)

lemma time_of_Cons [simp]: "time_of now ((t, st) # evs) (Suc k) = time_of t evs k"
  by (cases k) (simp_all add: time_of_def)







subsection \<open>The signal loop\<close>

lemma SigHandle_loop_terminating_signal:
  "sig = SIGTERM \<or> sig = SIGQUIT \<or> sig = SIGHUP \<Longrightarrow>
   SigHandle_loop w sel (sig # sigs) (exitcode, s) =
     SigHandle_loop w sel sigs
       (exitcode @ (case fst (sel (connsWG w) (grace_period w) s) of WaitChan \<Rightarrow> [0] | TimeAfter \<Rightarrow> [1, 0]),
        snd (OnStop (Some w) sel s))"
proof -
  assume sig: "sig = SIGTERM \<or> sig = SIGQUIT \<or> sig = SIGHUP"
  obtain c s1 where sel: "sel (connsWG w) (grace_period w) s = (c, s1)" by (cases "sel (connsWG w) (grace_period w) s")
  obtain e s2 where st: "OnStop (Some w) sel s = (e, s2)" by (cases "OnStop (Some w) sel s")
  have "e = (case c of WaitChan \<Rightarrow> None | TimeAfter \<Rightarrow> Some ''OnStop: shutdown timed out'')"
    using OnStop_error [of w sel s] sel st by simp
  then show ?thesis
    using sig sel st by (cases c) auto
qed

subsection \<open>Invocations in flight\<close>

lemma OnStop_step_InRunHooks:
  "(OnStop_step w sel ^^ Suc (length fs)) (InRunHooks r fs, s) = (Returned r, snd (call_each fs s))"
proof (induction fs arbitrary: s)
  case Nil
  then show ?case by simp
next
  case (Cons f fs)
  obtain e s' where f: "f s = (e, s')" by (cases "f s")
  obtain es s'' where r: "call_each fs s' = (es, s'')" by (cases "call_each fs s'")
  have "(OnStop_step w sel ^^ Suc (length (f # fs))) (InRunHooks r (f # fs), s)
      = (OnStop_step w sel ^^ Suc (length fs)) (OnStop_step w sel (InRunHooks r (f # fs), s))"
    by (simp only: funpow_Suc_right length_Cons o_apply)
  also have "\<dots> = (OnStop_step w sel ^^ Suc (length fs)) (InRunHooks r fs, s')"
    using f by simp
  also have "\<dots> = (Returned r, snd (call_each fs s'))"
    by (rule Cons.IH)
  finally show ?case using f r by simp
qed

lemma OnStop_step_alone:
  "(OnStop_step w sel ^^ (length (shutdownHooks w) + 2)) (AtSelect, s)
     = (Returned (fst (OnStop (Some w) sel s)), snd (OnStop (Some w) sel s))"
proof -
  obtain c s1 where sel: "sel (connsWG w) (grace_period w) s = (c, s1)" by (cases "sel (connsWG w) (grace_period w) s")
  let ?r = "case c of WaitChan \<Rightarrow> None | TimeAfter \<Rightarrow> Some ''OnStop: shutdown timed out''"
  have "(OnStop_step w sel ^^ (length (shutdownHooks w) + 2)) (AtSelect, s)
      = (OnStop_step w sel ^^ Suc (length (shutdownHooks w))) (OnStop_step w sel (AtSelect, s))"
    by (simp only: funpow_Suc_right o_apply add_2_eq_Suc')
  also have "OnStop_step w sel (AtSelect, s) = (InRunHooks ?r (shutdownHooks w), s1)"
    using sel by (cases c) (simp_all add: errors_New_def)
  also have "(OnStop_step w sel ^^ Suc (length (shutdownHooks w))) (InRunHooks ?r (shutdownHooks w), s1)
      = (Returned ?r, snd (call_each (shutdownHooks w) s1))"
    by (rule OnStop_step_InRunHooks)
  finally show ?thesis
    using sel by (cases c) (simp_all add: OnStop_def RunHooks_call_each errors_New_def)
qed

lemma length_traced_hooks [simp]: "length (traced_hooks i hs) = length hs"
  by (induction hs arbitrary: i) simp_all

lemma traced_hooks_drop:
  "k < length hs \<Longrightarrow>
   traced_hooks k (drop k hs) = traced_hook k (hs ! k) # traced_hooks (Suc k) (drop (Suc k) hs)"
  by (metis Cons_nth_drop_Suc traced_hooks.simps(2))

lemma hooks_called_le: "in_flight_ok hs p \<Longrightarrow> hooks_called (length hs) p \<le> length hs"
  by (cases p) simp_all

lemma OnStop_step_traced:
  assumes ok: "in_flight_ok (shutdownHooks w) p"
    and step: "OnStop_step (traced w) (traced_select sel) (p, (s, tr)) = (p', (s', tr'))"
  shows "in_flight_ok (shutdownHooks w) p'
    \<and> steps_taken (length (shutdownHooks w)) p'
        = min (length (shutdownHooks w) + 2) (Suc (steps_taken (length (shutdownHooks w)) p))
    \<and> (\<forall>i. count_list tr' (HookCalled i) + (if i < hooks_called (length (shutdownHooks w)) p then 1 else 0)
          = count_list tr (HookCalled i) + (if i < hooks_called (length (shutdownHooks w)) p' then 1 else 0))"
proof (cases p)
  case AtSelect
  obtain c s1 where sel: "sel (connsWG w) (grace_period w) s = (c, s1)" by (cases "sel (connsWG w) (grace_period w) s")
  from step AtSelect sel show ?thesis
    by (cases c) (auto simp: traced_select_def)
next
  case (InRunHooks r fs)
  let ?hs = "shutdownHooks w"
  let ?n = "length ?hs"
  show ?thesis
  proof (cases fs)
    case Nil
    with step InRunHooks show ?thesis by auto
  next
    case (Cons f fs')
    define k where "k = ?n - length fs"
    from ok InRunHooks Cons have le: "Suc (length fs') \<le> ?n"
      by simp
    from ok InRunHooks have "fs = traced_hooks k (drop k ?hs)"
      by (simp add: k_def)
    with Cons have fs: "f # fs' = traced_hooks k (drop k ?hs)"
      by simp
    from le Cons have k: "k < ?n" and k': "Suc k = ?n - length fs'" and k'': "k = ?n - Suc (length fs')"
      by (simp_all add: k_def)
    from fs traced_hooks_drop [OF k]
    have "f # fs' = traced_hook k (?hs ! k) # traced_hooks (Suc k) (drop (Suc k) ?hs)"
      by (rule trans)
    then have f: "f = traced_hook k (?hs ! k)"
      and fs': "fs' = traced_hooks (Suc k) (drop (Suc k) ?hs)"
      by (simp_all only: list.inject)
    obtain e s2 where h: "(?hs ! k) s = (e, s2)" by (cases "(?hs ! k) s")
    have "OnStop_step (traced w) (traced_select sel) (InRunHooks r (f # fs'), (s, tr))
        = (InRunHooks r fs', (s2, tr @ [HookCalled k]))"
      using h by (simp add: f traced_hook_def)
    with step InRunHooks Cons have p': "p' = InRunHooks r fs'"
      and tr': "tr' = tr @ [HookCalled k]"
      by simp_all
    have "in_flight_ok ?hs p'"
      unfolding p' in_flight_ok.simps k' [symmetric] using fs' le by simp
    moreover have "steps_taken ?n p' = min (?n + 2) (Suc (steps_taken ?n p))"
      unfolding p' InRunHooks Cons using le by simp
    moreover have "\<forall>i. count_list tr' (HookCalled i) + (if i < hooks_called ?n p then 1 else 0)
          = count_list tr (HookCalled i) + (if i < hooks_called ?n p' then 1 else 0)"
      unfolding p' InRunHooks Cons tr' hooks_called.simps k' [symmetric] length_Cons k'' [symmetric]
      by auto
    ultimately show ?thesis by blast
  qed
next
  case (Returned r)
  with step show ?thesis by auto
qed

lemma OnStop_two_traced:
  assumes "in_flight_ok (shutdownHooks w) p" and "in_flight_ok (shutdownHooks w) q"
    and "OnStop_two (traced w) (traced_select sel) sched (p, q, (s, tr)) = (p', q', (s', tr'))"
  shows "steps_taken (length (shutdownHooks w)) p'
        = min (length (shutdownHooks w) + 2)
            (steps_taken (length (shutdownHooks w)) p + count_list sched First)
    \<and> steps_taken (length (shutdownHooks w)) q'
        = min (length (shutdownHooks w) + 2)
            (steps_taken (length (shutdownHooks w)) q + count_list sched Second)
    \<and> (\<forall>i. count_list tr' (HookCalled i)
            + (if i < hooks_called (length (shutdownHooks w)) p then 1 else 0)
            + (if i < hooks_called (length (shutdownHooks w)) q then 1 else 0)
          = count_list tr (HookCalled i)
            + (if i < hooks_called (length (shutdownHooks w)) p' then 1 else 0)
            + (if i < hooks_called (length (shutdownHooks w)) q' then 1 else 0))"
  using assms
proof (induction sched arbitrary: p q s tr)
  case Nil
  then show ?case by (cases p; cases q) auto
next
  case (Cons a sched)
  let ?n = "length (shutdownHooks w)"
  show ?case
  proof (cases a)
    case First
    obtain p1 s1 tr1 where st: "OnStop_step (traced w) (traced_select sel) (p, (s, tr)) = (p1, (s1, tr1))"
      by (metis surj_pair)
    note one = OnStop_step_traced [OF Cons.prems(1) st]
    from Cons.prems(3) First st
    have run: "OnStop_two (traced w) (traced_select sel) sched (p1, q, (s1, tr1)) = (p', q', (s', tr'))"
      by simp
    have ok1: "in_flight_ok (shutdownHooks w) p1" using one by blast
    note rest = Cons.IH [OF ok1 Cons.prems(2) run]
    have "steps_taken ?n p' = min (?n + 2) (steps_taken ?n p + count_list (a # sched) First)"
      using one rest First by simp
    moreover have "steps_taken ?n q' = min (?n + 2) (steps_taken ?n q + count_list (a # sched) Second)"
      using rest First by simp
    moreover have "\<forall>i. count_list tr' (HookCalled i)
            + (if i < hooks_called ?n p then 1 else 0) + (if i < hooks_called ?n q then 1 else 0)
          = count_list tr (HookCalled i)
            + (if i < hooks_called ?n p' then 1 else 0) + (if i < hooks_called ?n q' then 1 else 0)"
    proof
      fix i
      from one have "count_list tr1 (HookCalled i) + (if i < hooks_called ?n p then 1 else 0)
          = count_list tr (HookCalled i) + (if i < hooks_called ?n p1 then 1 else 0)"
        by blast
      moreover from rest have "count_list tr' (HookCalled i)
            + (if i < hooks_called ?n p1 then 1 else 0) + (if i < hooks_called ?n q then 1 else 0)
          = count_list tr1 (HookCalled i)
            + (if i < hooks_called ?n p' then 1 else 0) + (if i < hooks_called ?n q' then 1 else 0)"
        by blast
      ultimately show "count_list tr' (HookCalled i)
            + (if i < hooks_called ?n p then 1 else 0) + (if i < hooks_called ?n q then 1 else 0)
          = count_list tr (HookCalled i)
            + (if i < hooks_called ?n p' then 1 else 0) + (if i < hooks_called ?n q' then 1 else 0)"
        by linarith
    qed
    ultimately show ?thesis by blast
  next
    case Second
    obtain q1 s1 tr1 where st: "OnStop_step (traced w) (traced_select sel) (q, (s, tr)) = (q1, (s1, tr1))"
      by (metis surj_pair)
    note one = OnStop_step_traced [OF Cons.prems(2) st]
    from Cons.prems(3) Second st
    have run: "OnStop_two (traced w) (traced_select sel) sched (p, q1, (s1, tr1)) = (p', q', (s', tr'))"
      by simp
    have ok1: "in_flight_ok (shutdownHooks w) q1" using one by blast
    note rest = Cons.IH [OF Cons.prems(1) ok1 run]
    have "steps_taken ?n p' = min (?n + 2) (steps_taken ?n p + count_list (a # sched) First)"
      using rest Second by simp
    moreover have "steps_taken ?n q' = min (?n + 2) (steps_taken ?n q + count_list (a # sched) Second)"
      using one rest Second by simp
    moreover have "\<forall>i. count_list tr' (HookCalled i)
            + (if i < hooks_called ?n p then 1 else 0) + (if i < hooks_called ?n q then 1 else 0)
          = count_list tr (HookCalled i)
            + (if i < hooks_called ?n p' then 1 else 0) + (if i < hooks_called ?n q' then 1 else 0)"
    proof
      fix i
      from one have "count_list tr1 (HookCalled i) + (if i < hooks_called ?n q then 1 else 0)
          = count_list tr (HookCalled i) + (if i < hooks_called ?n q1 then 1 else 0)"
        by blast
      moreover from rest have "count_list tr' (HookCalled i)
            + (if i < hooks_called ?n p then 1 else 0) + (if i < hooks_called ?n q1 then 1 else 0)
          = count_list tr1 (HookCalled i)
            + (if i < hooks_called ?n p' then 1 else 0) + (if i < hooks_called ?n q' then 1 else 0)"
        by blast
      ultimately show "count_list tr' (HookCalled i)
            + (if i < hooks_called ?n p then 1 else 0) + (if i < hooks_called ?n q then 1 else 0)
          = count_list tr (HookCalled i)
            + (if i < hooks_called ?n p' then 1 else 0) + (if i < hooks_called ?n q' then 1 else 0)"
        by linarith
    qed
    ultimately show ?thesis by blast
  qed
qed

lemma steps_taken_all:
  "in_flight_ok hs p \<Longrightarrow> steps_taken (length hs) p = length hs + 2 \<Longrightarrow> \<exists>r. p = Returned r"
  by (cases p) auto

lemma OnStop_two_in_flight_ok:
  assumes "in_flight_ok (shutdownHooks w) p" and "in_flight_ok (shutdownHooks w) q"
    and "OnStop_two (traced w) (traced_select sel) sched (p, q, (s, tr)) = (p', q', (s', tr'))"
  shows "in_flight_ok (shutdownHooks w) p' \<and> in_flight_ok (shutdownHooks w) q'"
  using assms
proof (induction sched arbitrary: p q s tr)
  case Nil
  then show ?case by simp
next
  case (Cons a sched)
  show ?case
  proof (cases a)
    case First
    obtain p1 s1 tr1 where st: "OnStop_step (traced w) (traced_select sel) (p, (s, tr)) = (p1, (s1, tr1))"
      by (metis surj_pair)
    from OnStop_step_traced [OF Cons.prems(1) st]
    have ok1: "in_flight_ok (shutdownHooks w) p1" by blast
    from Cons.prems(3) First st
    have "OnStop_two (traced w) (traced_select sel) sched (p1, q, (s1, tr1)) = (p', q', (s', tr'))"
      by simp
    from Cons.IH [OF ok1 Cons.prems(2) this] show ?thesis .
  next
    case Second
    obtain q1 s1 tr1 where st: "OnStop_step (traced w) (traced_select sel) (q, (s, tr)) = (q1, (s1, tr1))"
      by (metis surj_pair)
    from OnStop_step_traced [OF Cons.prems(2) st]
    have ok1: "in_flight_ok (shutdownHooks w) q1" by blast
    from Cons.prems(3) Second st
    have "OnStop_two (traced w) (traced_select sel) sched (p, q1, (s1, tr1)) = (p', q', (s', tr'))"
      by simp
    from Cons.IH [OF Cons.prems(1) ok1 this] show ?thesis .
  qed
qed

section \<open>Construction\<close>

text \<open>
  C6. NewWatcher with a negative grace period returns no Watcher and the error
  "timeout must be a positive number"; with any non-negative grace period and any list
  of hooks it returns, without error, a Watcher whose pending count is zero, whose hooks
  are the given ones in the given order, and whose grace period is the given one.
\<close>

theorem NewWatcher_construct:
  "(tmo < 0 \<longrightarrow> NewWatcher tmo hooks = (None, Some ''timeout must be a positive number''))
   \<and> (0 \<le> tmo \<longrightarrow>
        (\<exists>w. NewWatcher tmo hooks = (Some w, None)
           \<and> connsWG w = 0 \<and> shutdownHooks w = hooks \<and> timeoutMS w = tmo))"
  by (simp add: NewWatcher_def errors_New_def)

theorem NewWatcher_construct_witness:
  "((- 1 :: int) < 0
      \<and> NewWatcher (- 1) [\<lambda>s :: nat. (None, s)] = (None, Some ''timeout must be a positive number''))
   \<and> ((0 :: int) \<le> 3000
      \<and> (\<exists>w. NewWatcher 3000 [\<lambda>s :: nat. (None, s)] = (Some w, None)
           \<and> connsWG w = 0 \<and> shutdownHooks w = [\<lambda>s :: nat. (None, s)] \<and> timeoutMS w = 3000))"
  using NewWatcher_construct [of "- 1" "[\<lambda>s :: nat. (None, s)]"]
    NewWatcher_construct [of 3000 "[\<lambda>s :: nat. (None, s)]"]
  by simp

section \<open>The connection tracker\<close>

text \<open>
  C7, as the code has it. The pending count is the counter of a WaitGroup, a signed
  32-bit integer. On a Watcher whose pending count is not negative and below
  2147483647, an opened event (StateNew) increments the count by one; a closed or
  abandoned event (StateClosed, StateHijacked) on a positive count decrements it by one;
  every other event kind leaves the Watcher as it is. After any prefix of a well-formed
  sequence of events that stays within the counter, observed from pending count zero,
  no call has panicked, the pending count is the number of opened events minus the
  number of closed and abandoned ones, and it is not negative.
\<close>

theorem RecordConnState_pending_count:
  "(0 \<le> connsWG w \<and> connsWG w < 2147483647 \<longrightarrow>
      RecordConnState (Some w) StateNew = Inr (w\<lparr>connsWG := connsWG w + 1\<rparr>))
   \<and> (0 < connsWG w \<and> connsWG w \<le> 2147483647 \<and> (st = StateClosed \<or> st = StateHijacked) \<longrightarrow>
      RecordConnState (Some w) st = Inr (w\<lparr>connsWG := connsWG w - 1\<rparr>))
   \<and> (st \<noteq> StateNew \<and> st \<noteq> StateClosed \<and> st \<noteq> StateHijacked \<longrightarrow>
      RecordConnState (Some w) st = Inr w)
   \<and> (connsWG w = 0 \<and> well_formed evs \<and> within_counter evs \<and> n \<le> length evs \<longrightarrow>
      RecordConnState_seq w (take n evs)
        = Inr (w\<lparr>connsWG := opened (take n evs) - closed (take n evs)\<rparr>)
      \<and> 0 \<le> opened (take n evs) - closed (take n evs))"
proof (intro conjI impI)
  assume "0 \<le> connsWG w \<and> connsWG w < 2147483647"
  then show "RecordConnState (Some w) StateNew = Inr (w\<lparr>connsWG := connsWG w + 1\<rparr>)"
    by (simp add: RecordConnState_New)
next
  assume "0 < connsWG w \<and> connsWG w \<le> 2147483647 \<and> (st = StateClosed \<or> st = StateHijacked)"
  then show "RecordConnState (Some w) st = Inr (w\<lparr>connsWG := connsWG w - 1\<rparr>)"
    by (simp add: RecordConnState_Closed)
next
  assume "st \<noteq> StateNew \<and> st \<noteq> StateClosed \<and> st \<noteq> StateHijacked"
  then show "RecordConnState (Some w) st = Inr w"
    by (simp add: RecordConnState_other)
next
  assume a: "connsWG w = 0 \<and> well_formed evs \<and> within_counter evs \<and> n \<le> length evs"
  have le: "\<forall>k\<le>length (take n evs).
      closed (take k (take n evs)) \<le> connsWG w + opened (take k (take n evs))
      \<and> connsWG w + opened (take k (take n evs)) - closed (take k (take n evs)) \<le> 2147483647"
  proof (intro allI impI)
    fix k
    assume "k \<le> length (take n evs)"
    with a have kn: "k \<le> n" by simp
    with a have k: "k \<le> length evs" by simp
    from kn have tk: "take k (take n evs) = take k evs"
      by (simp add: min_def)
    from a k have "closed (take k evs) \<le> opened (take k evs)"
      and "opened (take k evs) - closed (take k evs) \<le> 2147483647"
      unfolding well_formed_iff within_counter_iff by blast+
    with a tk show "closed (take k (take n evs)) \<le> connsWG w + opened (take k (take n evs))
      \<and> connsWG w + opened (take k (take n evs)) - closed (take k (take n evs)) \<le> 2147483647"
      by simp
  qed
  from a have "0 \<le> connsWG w" by simp
  from seq_ok [OF this le] a
  show "RecordConnState_seq w (take n evs)
      = Inr (w\<lparr>connsWG := opened (take n evs) - closed (take n evs)\<rparr>)"
    by simp
next
  assume a: "connsWG w = 0 \<and> well_formed evs \<and> within_counter evs \<and> n \<le> length evs"
  then have "closed (take n evs) \<le> opened (take n evs)"
    unfolding well_formed_iff by blast
  then show "0 \<le> opened (take n evs) - closed (take n evs)"
    by simp
qed

theorem RecordConnState_pending_count_witness:
  "RecordConnState (Some \<lparr>connsWG = 1, shutdownHooks = [], timeoutMS = 3000 :: int\<rparr>) StateNew
      = Inr (\<lparr>connsWG = 2, shutdownHooks = ([] :: unit ShutdownHook list), timeoutMS = 3000\<rparr>)
   \<and> RecordConnState (Some \<lparr>connsWG = 1, shutdownHooks = [], timeoutMS = 3000\<rparr>) StateHijacked
      = Inr (\<lparr>connsWG = 0, shutdownHooks = ([] :: unit ShutdownHook list), timeoutMS = 3000\<rparr>)
   \<and> RecordConnState (Some \<lparr>connsWG = 1, shutdownHooks = [], timeoutMS = 3000\<rparr>) StateIdle
      = Inr (\<lparr>connsWG = 1, shutdownHooks = ([] :: unit ShutdownHook list), timeoutMS = 3000\<rparr>)
   \<and> well_formed [StateNew, StateNew, StateActive, StateHijacked, StateClosed]
   \<and> within_counter [StateNew, StateNew, StateActive, StateHijacked, StateClosed]
   \<and> RecordConnState_seq \<lparr>connsWG = 0, shutdownHooks = [], timeoutMS = 3000\<rparr>
        (take 2 [StateNew, StateNew, StateActive, StateHijacked, StateClosed])
      = Inr (\<lparr>connsWG = 2, shutdownHooks = ([] :: unit ShutdownHook list), timeoutMS = 3000\<rparr>)
   \<and> RecordConnState_seq \<lparr>connsWG = 0, shutdownHooks = [], timeoutMS = 3000\<rparr>
        (take 5 [StateNew, StateNew, StateActive, StateHijacked, StateClosed])
      = Inr (\<lparr>connsWG = 0, shutdownHooks = ([] :: unit ShutdownHook list), timeoutMS = 3000\<rparr>)"
proof -
  let ?w1 = "\<lparr>connsWG = 1, shutdownHooks = ([] :: unit ShutdownHook list), timeoutMS = 3000\<rparr>"
  let ?w0 = "\<lparr>connsWG = 0, shutdownHooks = ([] :: unit ShutdownHook list), timeoutMS = 3000\<rparr>"
  let ?evs = "[StateNew, StateNew, StateActive, StateHijacked, StateClosed]"
  have wf: "well_formed ?evs"
    by (simp add: well_formed_def upt_rec [of 0] upt_rec [of "Suc n" for n] ConnState_defs
        opened_def closed_def)
  have wc: "within_counter ?evs"
    by (simp add: within_counter_def upt_rec [of 0] upt_rec [of "Suc n" for n] ConnState_defs
        opened_def closed_def)
  show ?thesis
    using wf wc
      RecordConnState_pending_count [of ?w1 StateHijacked ?evs 0]
      RecordConnState_pending_count [of ?w1 StateIdle ?evs 0]
      RecordConnState_pending_count [of ?w0 StateIdle ?evs 2]
      RecordConnState_pending_count [of ?w0 StateIdle ?evs 5]
    by (simp add: ConnState_defs opened_def closed_def)
qed

text \<open>
  The claim as the specification states it fails where the counter ends. 2147483648
  opened events and no closed one form a well-formed sequence; after the first
  2147483647 of them the pending count is 2147483647, and the next opened event does not
  increment it: the counter wraps to a negative value and the call panics.
\<close>

theorem RecordConnState_counter_counterexample:
  "well_formed (replicate 2147483648 StateNew)
   \<and> RecordConnState_seq \<lparr>connsWG = 0, shutdownHooks = ([] :: unit ShutdownHook list), timeoutMS = 3000\<rparr>
        (replicate 2147483647 StateNew)
      = Inr \<lparr>connsWG = 2147483647, shutdownHooks = [], timeoutMS = 3000\<rparr>
   \<and> RecordConnState (Some \<lparr>connsWG = 2147483647, shutdownHooks = ([] :: unit ShutdownHook list), timeoutMS = 3000\<rparr>)
        StateNew
      = Inl (Panic ''sync: negative WaitGroup counter'')
   \<and> RecordConnState_seq \<lparr>connsWG = 0, shutdownHooks = ([] :: unit ShutdownHook list), timeoutMS = 3000\<rparr>
        (replicate 2147483648 StateNew)
      = Inl (Panic ''sync: negative WaitGroup counter'')"
  by (simp add: well_formed_New seq_New RecordConnState_New_wraps)

text \<open>
  C8. A closed or abandoned event observed at pending count zero panics in the
  WaitGroup ("sync: negative WaitGroup counter"): the call returns no Watcher, so the
  count is not clamped to zero. No later event repairs the violation: in a run of calls,
  which the first panic ends, a sequence of events that is not well-formed, observed
  from pending count zero, ends in that panic whatever events follow.
\<close>

theorem RecordConnState_negative_is_fatal:
  "(connsWG w = 0 \<and> (st = StateClosed \<or> st = StateHijacked) \<longrightarrow>
      RecordConnState (Some w) st = Inl (Panic ''sync: negative WaitGroup counter''))
   \<and> (connsWG w = 0 \<and> \<not> well_formed evs \<longrightarrow>
      RecordConnState_seq w (evs @ rest) = Inl (Panic ''sync: negative WaitGroup counter''))"
proof (intro conjI impI)
  assume "connsWG w = 0 \<and> (st = StateClosed \<or> st = StateHijacked)"
  then show "RecordConnState (Some w) st = Inl (Panic ''sync: negative WaitGroup counter'')"
    by (auto simp: RecordConnState_Closed)
next
  assume a: "connsWG w = 0 \<and> \<not> well_formed evs"
  then obtain n where n: "n \<le> length evs" "\<not> closed (take n evs) \<le> opened (take n evs)"
    unfolding well_formed_iff by blast
  then have "n \<le> length (evs @ rest)"
    and "\<not> closed (take n (evs @ rest)) \<le> connsWG w + opened (take n (evs @ rest))"
    using a by simp_all
  then have bad: "\<not> (\<forall>k\<le>length (evs @ rest).
      closed (take k (evs @ rest)) \<le> connsWG w + opened (take k (evs @ rest)))"
    by blast
  from a have "0 \<le> connsWG w" and "connsWG w \<le> 2147483647" by simp_all
  from seq_bad [OF this bad]
  show "RecordConnState_seq w (evs @ rest) = Inl (Panic ''sync: negative WaitGroup counter'')" .
qed

theorem RecordConnState_negative_is_fatal_witness:
  "RecordConnState (Some \<lparr>connsWG = 0, shutdownHooks = ([] :: unit ShutdownHook list), timeoutMS = 3000\<rparr>)
      StateClosed = Inl (Panic ''sync: negative WaitGroup counter'')
   \<and> \<not> well_formed [StateNew, StateClosed, StateHijacked]
   \<and> RecordConnState_seq \<lparr>connsWG = 0, shutdownHooks = ([] :: unit ShutdownHook list), timeoutMS = 3000\<rparr>
        ([StateNew, StateClosed, StateHijacked] @ [StateNew, StateNew])
      = Inl (Panic ''sync: negative WaitGroup counter'')"
proof -
  let ?w0 = "\<lparr>connsWG = 0, shutdownHooks = ([] :: unit ShutdownHook list), timeoutMS = 3000\<rparr>"
  let ?evs = "[StateNew, StateClosed, StateHijacked]"
  have nwf: "\<not> well_formed ?evs"
    by (simp add: well_formed_def upt_rec [of 0] upt_rec [of "Suc n" for n] ConnState_defs
        opened_def closed_def)
  show ?thesis
    using nwf RecordConnState_negative_is_fatal [of ?w0 StateClosed ?evs "[StateNew, StateNew]"]
    by simp
qed

section \<open>The nil receiver\<close>

text \<open>
  C3, as the code has it. On a nil Watcher, RunHooks and OnStop return an error
  ("RunHooks: receiver is nil", "OnStop: receiver is nil") and touch nothing, while
  RecordConnState and SigHandle panic ("RecordConnState: receiver is nil",
  "SigHandler: Watcher is nil"): their callers check no error.
\<close>

theorem nil_receiver:
  "RunHooks None s = (Some ''RunHooks: receiver is nil'', s)
   \<and> OnStop None sel s = (Some ''OnStop: receiver is nil'', s)
   \<and> RecordConnState None st = Inl (Panic ''RecordConnState: receiver is nil'')
   \<and> SigHandle None sel sigs out = Inl (Panic ''SigHandler: Watcher is nil'')"
  by (simp add: RunHooks_def OnStop_def RecordConnState_def SigHandle_def errors_New_def)

text \<open>
  The claim as the specification states it fails: observing a connection state on a nil
  Watcher, and starting the signal loop on one, end in a panic, not in an error.
\<close>

theorem nil_receiver_counterexample:
  "RecordConnState (None :: unit Watcher option) StateNew
      = Inl (Panic ''RecordConnState: receiver is nil'')
   \<and> SigHandle (None :: unit Watcher option) (\<lambda>c d s. (WaitChan, s)) [SIGTERM] ([], ())
      = Inl (Panic ''SigHandler: Watcher is nil'')"
  by (simp add: RecordConnState_def SigHandle_def)

section \<open>The hook runner\<close>





section \<open>The shutdown coordinator\<close>




text \<open>
  C2, as the code has it. OnStop discards what RunHooks returns: its error is nil when
  the select received from the drain-wait and "OnStop: shutdown timed out" when it
  received from the timer, the same whatever hooks are registered and whatever they
  return. The hooks are all run all the same: the state OnStop leaves is that of calling
  each hook in turn.
\<close>

theorem OnStop_reports_only_timeout:
  "fst (OnStop (Some w) sel s)
     = (case fst (sel (connsWG w) (grace_period w) s) of
          WaitChan \<Rightarrow> None | TimeAfter \<Rightarrow> Some ''OnStop: shutdown timed out'')
   \<and> fst (OnStop (Some (w\<lparr>shutdownHooks := hooks\<rparr>)) sel s) = fst (OnStop (Some w) sel s)
   \<and> snd (OnStop (Some w) sel s)
     = snd (call_each (shutdownHooks w) (snd (sel (connsWG w) (grace_period w) s)))"
  by (simp add: OnStop_result grace_period_def)

text \<open>
  The claim as the specification states it fails: a Watcher whose hook fails and one
  whose hook succeeds give the caller of OnStop the same result, drained or timed out,
  although RunHooks itself reports the failure.
\<close>

theorem OnStop_hook_failure_counterexample:
  "fst (RunHooks (Some \<lparr>connsWG = 0, shutdownHooks = [\<lambda>s :: unit. (Some ''boom'', s)], timeoutMS = 0\<rparr>) ())
      = Some ''shutdown hook err: boom''
   \<and> OnStop (Some \<lparr>connsWG = 0, shutdownHooks = [\<lambda>s :: unit. (Some ''boom'', s)], timeoutMS = 0\<rparr>)
        (\<lambda>c d s. (WaitChan, s)) () = (None, ())
   \<and> OnStop (Some \<lparr>connsWG = 0, shutdownHooks = [\<lambda>s :: unit. (None, s)], timeoutMS = 0\<rparr>)
        (\<lambda>c d s. (WaitChan, s)) () = (None, ())
   \<and> OnStop (Some \<lparr>connsWG = 1, shutdownHooks = [\<lambda>s :: unit. (Some ''boom'', s)], timeoutMS = 0\<rparr>)
        (\<lambda>c d s. (TimeAfter, s)) () = (Some ''OnStop: shutdown timed out'', ())
   \<and> OnStop (Some \<lparr>connsWG = 1, shutdownHooks = [\<lambda>s :: unit. (None, s)], timeoutMS = 0\<rparr>)
        (\<lambda>c d s. (TimeAfter, s)) () = (Some ''OnStop: shutdown timed out'', ())"
  by (simp add: OnStop_def RunHooks_def errors_New_def)

section \<open>The signal dispatcher\<close>

text \<open>
  C4, at the input where the code departs from it. SIGTERM arrives and OnStop times
  out: the loop sends 1 and then, with no else, 0 as well.
\<close>

theorem SigHandle_timeout_sends_two_codes:
  "SigHandle (Some \<lparr>connsWG = 1, shutdownHooks = [], timeoutMS = 0\<rparr>)
     (\<lambda>c d s. (TimeAfter, s)) [SIGTERM] ([], ()) = Inr ([1, 0], ())"
  by (simp add: SigHandle_def OnStop_def RunHooks_def errors_New_def)

section \<open>Overlapping invocations of OnStop\<close>

text \<open>
  C9, as the code has it. OnStop has no guard against a second invocation while a
  first one is in flight: each invocation runs every hook once, after its own select.
  For two invocations on the same Watcher, under every schedule that lets both take all
  their steps, both return and every registered hook has been called exactly twice.
\<close>

theorem OnStop_two_runs_hooks_twice:
  "length (shutdownHooks w) + 2 \<le> count_list sched First
   \<and> length (shutdownHooks w) + 2 \<le> count_list sched Second \<longrightarrow>
   (\<exists>r1 r2 s' tr.
      OnStop_two (traced w) (traced_select sel) sched (AtSelect, AtSelect, (s, []))
        = (Returned r1, Returned r2, (s', tr))
      \<and> (\<forall>i<length (shutdownHooks w). count_list tr (HookCalled i) = 2))"
proof
  let ?hs = "shutdownHooks w"
  let ?n = "length ?hs"
  assume fair: "?n + 2 \<le> count_list sched First \<and> ?n + 2 \<le> count_list sched Second"
  obtain p' q' s' tr where run:
    "OnStop_two (traced w) (traced_select sel) sched (AtSelect, AtSelect, (s, [])) = (p', q', (s', tr))"
    by (metis surj_pair)
  have ok0: "in_flight_ok ?hs AtSelect" by simp
  note ok = OnStop_two_in_flight_ok [OF ok0 ok0 run]
  note inv = OnStop_two_traced [OF ok0 ok0 run]
  from inv fair have "steps_taken ?n p' = ?n + 2" and "steps_taken ?n q' = ?n + 2"
    by simp_all
  with ok obtain r1 r2 where ret: "p' = Returned r1" "q' = Returned r2"
    using steps_taken_all by blast
  have "\<forall>i<?n. count_list tr (HookCalled i) = 2"
  proof (intro allI impI)
    fix i
    assume "i < ?n"
    with inv [THEN conjunct2, THEN conjunct2, rule_format, of i] ret
    show "count_list tr (HookCalled i) = 2"
      by simp
  qed
  with run ret show "\<exists>r1 r2 s' tr.
      OnStop_two (traced w) (traced_select sel) sched (AtSelect, AtSelect, (s, []))
        = (Returned r1, Returned r2, (s', tr))
      \<and> (\<forall>i<?n. count_list tr (HookCalled i) = 2)"
    by blast
qed

theorem OnStop_two_runs_hooks_twice_witness:
  "length (shutdownHooks \<lparr>connsWG = 0, shutdownHooks = [\<lambda>s :: nat. (None, s + 1), \<lambda>s. (None, s * 2)], timeoutMS = 3000\<rparr>) + 2
      \<le> count_list [First, First, Second, Second, First, Second, First, Second] First
   \<and> length (shutdownHooks \<lparr>connsWG = 0, shutdownHooks = [\<lambda>s :: nat. (None, s + 1), \<lambda>s. (None, s * 2)], timeoutMS = 3000\<rparr>) + 2
      \<le> count_list [First, First, Second, Second, First, Second, First, Second] Second
   \<and> (\<exists>r1 r2 s' tr.
      OnStop_two
        (traced \<lparr>connsWG = 0, shutdownHooks = [\<lambda>s :: nat. (None, s + 1), \<lambda>s. (None, s * 2)], timeoutMS = 3000\<rparr>)
        (traced_select (\<lambda>c d s. (WaitChan, s)))
        [First, First, Second, Second, First, Second, First, Second]
        (AtSelect, AtSelect, (0, []))
        = (Returned r1, Returned r2, (s', tr))
      \<and> count_list tr (HookCalled 0) = 2 \<and> count_list tr (HookCalled 1) = 2)"
proof -
  let ?w = "\<lparr>connsWG = 0, shutdownHooks = [\<lambda>s :: nat. (None, s + 1), \<lambda>s. (None, s * 2)], timeoutMS = 3000 :: int\<rparr>"
  let ?sched = "[First, First, Second, Second, First, Second, First, Second]"
  have fair: "length (shutdownHooks ?w) + 2 \<le> count_list ?sched First
      \<and> length (shutdownHooks ?w) + 2 \<le> count_list ?sched Second"
    by simp
  from OnStop_two_runs_hooks_twice [of ?w ?sched "\<lambda>c d s. (WaitChan, s)" 0] fair
  obtain r1 r2 s' tr where
    run: "OnStop_two (traced ?w) (traced_select (\<lambda>c d s. (WaitChan, s))) ?sched (AtSelect, AtSelect, (0, []))
        = (Returned r1, Returned r2, (s', tr))"
    and twice: "\<forall>i<length (shutdownHooks ?w). count_list tr (HookCalled i) = 2"
    by blast
  from twice have "count_list tr (HookCalled 0) = 2" and "count_list tr (HookCalled 1) = 2"
    by simp_all
  with run fair show ?thesis by blast
qed

text \<open>
  The claim as the specification states it fails. Two invocations on a Watcher with
  two hooks, scheduled in turns: the second invocation calls hook 0 while the first is
  between its hooks 0 and 1, and both hooks run twice.
\<close>

theorem OnStop_two_interleaved_counterexample:
  "OnStop_two
     (traced \<lparr>connsWG = 0, shutdownHooks = [\<lambda>s :: nat. (None, s + 1), \<lambda>s. (None, s * 2)], timeoutMS = 3000\<rparr>)
     (traced_select (\<lambda>c d s. (WaitChan, s)))
     [First, First, Second, Second, First, Second, First, Second]
     (AtSelect, AtSelect, (0, []))
   = (Returned None, Returned None,
      (8, [Resolved WaitChan, HookCalled 0, Resolved WaitChan, HookCalled 0,
           HookCalled 1, HookCalled 1]))"
  by (simp add: traced_def traced_select_def traced_hook_def)

end
